theory Spec2Isabelle
  imports Main "HOL-Library.Word"
begin

unbundle bit_operations_syntax

section \<open>Data model\<close>

type_synonym byte = "8 word"

text \<open>
  The exceptions the modelled functions raise, one constructor per raise site:
  \<^item> \<open>UnsupportedFormat\<close>: the \<open>ValueError\<close> of \<open>RegionScanner._parse\<close>;
  \<^item> \<open>BitCountExceeded\<close>: the \<open>ValueError\<close> that \<open>damage_region\<close> raises itself;
  \<^item> \<open>SampleRange\<close>: the \<open>ValueError\<close> of \<open>random.sample\<close> for a negative count
    (or a count above the population);
  \<^item> \<open>IndexOutOfRange\<close>: the \<open>IndexError\<close> of a bytearray subscript;
  \<^item> \<open>EmptySequence\<close>: the \<open>ValueError\<close> of \<open>max()\<close> on an empty iterable.
\<close>

datatype error =
  UnsupportedFormat | BitCountExceeded | SampleRange | IndexOutOfRange | EmptySequence

text \<open>
  The six region names of the table in \<open>_jpg_segments\<close>. The source's keys are the
  strings "DQT-...", "DHT-...", "SOS-...", "APP0", "EXIF" and "COM" (the first three carry
  a non-ASCII suffix); all six are distinct and non-empty, so \<open>if name:\<close> holds exactly
  when the table has the marker.
\<close>

datatype region_name = DQT | DHT | SOS | APP0 | EXIF | COM

fun name_of :: "byte \<Rightarrow> region_name option" where
  "name_of m =
     (if m = 0xDB then Some DQT
      else if m = 0xC4 then Some DHT
      else if m = 0xDA then Some SOS
      else if m = 0xE0 then Some APP0
      else if m = 0xE1 then Some EXIF
      else if m = 0xFE then Some COM
      else None)"

text \<open>
  \<open>self.regions\<close> is a Python dict \<open>name -> (offset, length)\<close>. Its iteration order is
  the order in which keys were first inserted, and \<open>largest_region\<close> depends on that
  order, so the dict is an association list with distinct keys; \<open>dict_set\<close> is
  \<open>regions[k] = v\<close>: an existing key keeps its place and gets the new value, a new key
  goes to the end.
\<close>

type_synonym region = "int \<times> int"
type_synonym regions = "(region_name \<times> region) list"

fun dict_set :: "'k \<Rightarrow> 'v \<Rightarrow> ('k \<times> 'v) list \<Rightarrow> ('k \<times> 'v) list" where
  "dict_set k v [] = [(k, v)]"
| "dict_set k v (e # es) = (if fst e = k then (k, v) # es else e # dict_set k v es)"

section \<open>RegionScanner\<close>

text \<open>\<open>int.from_bytes(d[i + 2:i + 4], 'big')\<close>, read where \<open>i + 4 \<le> len(d)\<close>.\<close>

definition seg_len :: "byte list \<Rightarrow> nat \<Rightarrow> nat" where
  "seg_len d i = unat (d ! (i + 2)) * 256 + unat (d ! (i + 3))"

definition seg_end :: "byte list \<Rightarrow> nat \<Rightarrow> nat" where
  "seg_end d i = i + 2 + seg_len d i"

text \<open>
  The statement \<open>if name: self.regions[name] = (i + 2, seg_len - 2)\<close> for the segment
  at cursor \<open>i\<close> with tag code \<open>m\<close> and length field \<open>l\<close>.
\<close>

definition record_segment :: "regions \<Rightarrow> nat \<times> byte \<times> nat \<Rightarrow> regions" where
  "record_segment regs s =
     (case s of (i, m, l) \<Rightarrow>
        (case name_of m of
           None \<Rightarrow> regs
         | Some n \<Rightarrow> dict_set n (int i + 2, int l - 2) regs))"

text \<open>
  The \<open>while\<close> loop of \<open>_jpg_segments\<close>, from cursor \<open>i\<close> with the dict \<open>regs\<close>. The
  cursor starts at 2 and only grows, so it is a \<open>nat\<close>; every read is below
  \<open>i + 4 \<le> len(d)\<close>.
\<close>

function jpg_loop :: "byte list \<Rightarrow> nat \<Rightarrow> regions \<Rightarrow> regions" where
  "jpg_loop d i regs =
     (if i + 4 \<le> length d then
        (if d ! i \<noteq> 0xFF then jpg_loop d (i + 1) regs
         else if d ! (i + 1) = 0xD9 then regs
         else if 0xC0 \<le> d ! (i + 1) \<and> d ! (i + 1) \<le> 0xFE then
           (if seg_end d i > length d then regs
            else jpg_loop d (seg_end d i) (record_segment regs (i, d ! (i + 1), seg_len d i)))
         else jpg_loop d (i + 1) regs)
      else regs)"
  by pat_completeness auto
termination
  by (relation "measure (\<lambda>(d, i, regs). length d - i)") (auto simp: seg_end_def)

definition jpg_segments :: "byte list \<Rightarrow> regions" where
  "jpg_segments d = jpg_loop d 2 []"

text \<open>
  The constructor: \<open>_parse\<close> accepts data that starts with FF D8 and raises otherwise.
  The result is the value of \<open>self.regions\<close> after construction.
\<close>

definition RegionScanner :: "byte list \<Rightarrow> error + regions" where
  "RegionScanner d =
     (if take 2 d = [0xFF, 0xD8] then Inr (jpg_segments d) else Inl UnsupportedFormat)"

text \<open>
  The segments the loop walks over and accepts (length-bearing tag, extent inside the
  buffer), in stream order, each as (cursor, tag code, length field). It follows the loop
  branch by branch and collects what the loop hands to \<open>record_segment\<close>.
\<close>

function segments :: "byte list \<Rightarrow> nat \<Rightarrow> (nat \<times> byte \<times> nat) list" where
  "segments d i =
     (if i + 4 \<le> length d then
        (if d ! i \<noteq> 0xFF then segments d (i + 1)
         else if d ! (i + 1) = 0xD9 then []
         else if 0xC0 \<le> d ! (i + 1) \<and> d ! (i + 1) \<le> 0xFE then
           (if seg_end d i > length d then []
            else (i, d ! (i + 1), seg_len d i) # segments d (seg_end d i))
         else segments d (i + 1))
      else [])"
  by pat_completeness auto
termination
  by (relation "measure (\<lambda>(d, i). length d - i)") (auto simp: seg_end_def)

text \<open>
  \<open>max(self.regions.items(), key=lambda x: x[1][1])[0]\<close>: Python's \<open>max\<close> keeps the
  first item whose key is maximal (a later item replaces the best one only when its key is
  strictly greater) and raises \<open>ValueError\<close> on an empty iterable.
\<close>

fun py_max_from :: "('a \<Rightarrow> int) \<Rightarrow> 'a \<Rightarrow> 'a list \<Rightarrow> 'a" where
  "py_max_from key best [] = best"
| "py_max_from key best (x # xs) =
     py_max_from key (if key x > key best then x else best) xs"

definition largest_region :: "regions \<Rightarrow> error + region_name" where
  "largest_region regs =
     (case regs of
        [] \<Rightarrow> Inl EmptySequence
      | e # es \<Rightarrow> Inr (fst (py_max_from (\<lambda>x. snd (snd x)) e es)))"

definition list_regions :: "regions \<Rightarrow> region_name list" where
  "list_regions regs = map fst regs"

section \<open>damage_region\<close>

text \<open>
  A bytearray subscript \<open>data[j]\<close>: an index from \<open>-len\<close> to \<open>-1\<close> counts from the end,
  anything outside \<open>-len \<le> j < len\<close> raises \<open>IndexError\<close>.
\<close>

definition py_index :: "nat \<Rightarrow> int \<Rightarrow> nat option" where
  "py_index n j =
     (if 0 \<le> j \<and> j < int n then Some (nat j)
      else if - int n \<le> j \<and> j < 0 then Some (nat (int n + j))
      else None)"

text \<open>
  The \<open>for b in idxs\<close> loop: \<open>data[off + b // 8] ^= 1 << (b % 8)\<close>. It returns the
  buffer as the loop leaves it, also when a subscript raises half-way.
\<close>

fun flip_bits :: "byte list \<Rightarrow> int \<Rightarrow> int list \<Rightarrow> (error + unit) \<times> byte list" where
  "flip_bits data off [] = (Inr (), data)"
| "flip_bits data off (b # bs) =
     (case py_index (length data) (off + b div 8) of
        None \<Rightarrow> (Inl IndexOutOfRange, data)
      | Some j \<Rightarrow> flip_bits (data[j := data ! j XOR push_bit (nat (b mod 8)) 1]) off bs)"

text \<open>\<open>range(a, b)\<close> as the list of its values.\<close>

definition py_range :: "int \<Rightarrow> int \<Rightarrow> int list" where
  "py_range a b = [a..b - 1]"

text \<open>
  The two calls into Python's \<open>random\<close> module, taken as parameters:
  \<open>rng_sample g n k\<close> is what \<open>random.sample(range(n), k)\<close> returns and
  \<open>rng_randint g a b\<close> what \<open>random.randint(a, b)\<close> returns. The library promises
  \<open>sample_ok\<close> for \<open>0 \<le> k \<le> n\<close> and \<open>randint_ok\<close> for \<open>a \<le> b\<close>.
\<close>

record rng =
  rng_sample :: "int \<Rightarrow> int \<Rightarrow> int list"
  rng_randint :: "int \<Rightarrow> int \<Rightarrow> int"

definition sample_ok :: "int \<Rightarrow> int \<Rightarrow> int list \<Rightarrow> bool" where
  "sample_ok n k xs = (int (length xs) = k \<and> distinct xs \<and> list_all (\<lambda>x. 0 \<le> x \<and> x < n) xs)"

definition randint_ok :: "int \<Rightarrow> int \<Rightarrow> int \<Rightarrow> bool" where
  "randint_ok a b x = (a \<le> x \<and> x \<le> b)"

text \<open>A generator that always draws the lowest values: the first \<open>k\<close> indices, the start \<open>a\<close>.\<close>

definition rng_lowest :: rng where
  "rng_lowest = \<lparr> rng_sample = (\<lambda>n k. [0..k - 1]), rng_randint = (\<lambda>a b. a) \<rparr>"

text \<open>
  \<open>damage_region(data, off, size, bits, mode)\<close> with the generator \<open>g\<close> (the
  parameter \<open>size\<close> is \<open>sz\<close> here). The result is
  the outcome (an exception or a normal return) and the bytearray afterwards.
  \<open>random.sample\<close> raises for a negative count; a count above the population cannot
  reach it past the guard.
\<close>

definition damage_region ::
  "rng \<Rightarrow> byte list \<Rightarrow> int \<Rightarrow> int \<Rightarrow> int \<Rightarrow> string \<Rightarrow> (error + unit) \<times> byte list" where
  "damage_region g data off sz bits mode =
     (let total_bits = sz * 8 in
      if bits > total_bits then (Inl BitCountExceeded, data)
      else if mode = ''random'' then
        (if bits < 0 then (Inl SampleRange, data)
         else flip_bits data off (rng_sample g total_bits bits))
      else
        (let start = rng_randint g 0 (total_bits - bits) in
         flip_bits data off (py_range start (start + bits))))"

text \<open>
  One pass of the loop body of \<open>damage_region\<close> for the bit index \<open>b\<close>, where the
  subscript is in range (the buffer is left alone where it is not).
\<close>

definition toggle :: "int \<Rightarrow> int \<Rightarrow> byte list \<Rightarrow> byte list" where
  "toggle off b data =
     (case py_index (length data) (off + b div 8) of
        None \<Rightarrow> data
      | Some j \<Rightarrow> data[j := data ! j XOR push_bit (nat (b mod 8)) 1])"

text \<open>The byte span of a Region: the offsets from \<open>offset\<close> up to \<open>offset + length\<close>.\<close>

definition span :: "region \<Rightarrow> int set" where
  "span r = {fst r ..< fst r + snd r}"

text \<open>
  Bit \<open>p\<close> of a buffer, counted as \<open>damage_region\<close> counts: byte \<open>p div 8\<close>, bit
  \<open>p mod 8\<close> from the least significant one; and the positions where two buffers differ.
\<close>

definition bit_at :: "byte list \<Rightarrow> nat \<Rightarrow> bool" where
  "bit_at data p = bit (data ! (p div 8)) (p mod 8)"

definition diff_positions :: "byte list \<Rightarrow> byte list \<Rightarrow> nat list" where
  "diff_positions a b = filter (\<lambda>p. bit_at a p \<noteq> bit_at b p) [0..<8 * length a]"

text \<open>
  The names the scan records, in stream order and with repeats: one for every walked
  segment whose tag code is in the table. \<open>first_seen\<close> keeps the first occurrence
  of every element of a list, in order.
\<close>

definition recorded_names :: "byte list \<Rightarrow> region_name list" where
  "recorded_names d = List.map_filter (\<lambda>s. name_of (fst (snd s))) (segments d 2)"

fun first_seen :: "'a list \<Rightarrow> 'a list" where
  "first_seen [] = []"
| "first_seen (x # xs) = x # filter (\<lambda>y. y \<noteq> x) (first_seen xs)"

declare jpg_loop.simps [simp del] segments.simps [simp del] name_of.simps [simp del]

section \<open>RegionScanner: what a recorded Region spans\<close>

text \<open>
  Claim C1. The claim: a recorded Region has offset = cursor + 4 and length = length
  field - 2, so that it spans the segment's payload. On the stream
  FF D8 | FF DB 00 04 AA BB (one DQT segment at cursor 2 with the payload AA BB at
  offsets 6 and 7) the scanner records DQT at offset 4 = cursor + 2 with length 2: the
  span is the two bytes of the length field, not the payload.
\<close>

theorem region_offset_at_length_field:
  "RegionScanner [0xFF, 0xD8, 0xFF, 0xDB, 0x00, 0x04, 0xAA, 0xBB] = Inr [(DQT, (4, 2))]
   \<and> (4::int) \<noteq> 2 + 4"
  by (simp add: RegionScanner_def jpg_segments_def jpg_loop.simps seg_end_def seg_len_def
      record_segment_def name_of.simps)

section \<open>RegionScanner: a segment that runs past the buffer\<close>

text \<open>
  Claim C9. When the loop stands at cursor \<open>i\<close> with the dict \<open>regs\<close> on a
  length-bearing tag (escape byte FF, tag code in C0..FE other than D9) whose extent
  \<open>i + 2 + length field\<close> is beyond the end of the buffer, the scan ends there without
  an exception: its result is \<open>regs\<close>, the Regions recorded so far, and that segment is
  not among the accepted segments.
\<close>

theorem truncated_segment_stops:
  assumes "i + 4 \<le> length d" and "d ! i = 0xFF" and "d ! (i + 1) \<noteq> 0xD9"
    and "0xC0 \<le> d ! (i + 1)" and "d ! (i + 1) \<le> 0xFE" and "length d < seg_end d i"
  shows "jpg_loop d i regs = regs \<and> segments d i = []"
  using assms by (simp add: jpg_loop.simps [of d i] segments.simps [of d i])

theorem truncated_segment_stops_witness:
  "jpg_loop [0xFF, 0xD8, 0xFF, 0xDB, 0x00, 0x04, 0xAA, 0xBB, 0xFF, 0xC4, 0x00, 0x10, 0x01] 8 [(DQT, (4, 2))]
     = [(DQT, (4, 2))]
   \<and> segments [0xFF, 0xD8, 0xFF, 0xDB, 0x00, 0x04, 0xAA, 0xBB, 0xFF, 0xC4, 0x00, 0x10, 0x01] 8 = []"
  using truncated_segment_stops [of 8 "[0xFF, 0xD8, 0xFF, 0xDB, 0x00, 0x04, 0xAA, 0xBB, 0xFF, 0xC4, 0x00, 0x10, 0x01]" "[(DQT, (4, 2))]"]
  by (simp add: seg_end_def seg_len_def)

section \<open>largest_region\<close>

lemma py_max_from_first:
  "(py_max_from key b xs = b \<and> (\<forall>x\<in>set xs. key x \<le> key b))
   \<or> (\<exists>k<length xs. py_max_from key b xs = xs ! k \<and> key b < key (xs ! k)
        \<and> (\<forall>x\<in>set xs. key x \<le> key (xs ! k)) \<and> (\<forall>j<k. key (xs ! j) < key (xs ! k)))"
proof (induction xs arbitrary: b)
  case Nil
  show ?case by simp
next
  case (Cons x xs)
  let ?b' = "if key x > key b then x else b"
  from Cons.IH [of ?b'] show ?case
  proof
    assume h: "py_max_from key ?b' xs = ?b' \<and> (\<forall>y\<in>set xs. key y \<le> key ?b')"
    show ?thesis
    proof (cases "key x > key b")
      case True
      with h have "\<exists>k<length (x # xs). py_max_from key b (x # xs) = (x # xs) ! k \<and> key b < key ((x # xs) ! k)
        \<and> (\<forall>y\<in>set (x # xs). key y \<le> key ((x # xs) ! k)) \<and> (\<forall>j<k. key ((x # xs) ! j) < key ((x # xs) ! k))"
        by (intro exI [of _ 0]) simp
      then show ?thesis by blast
    next
      case False
      with h show ?thesis by auto
    qed
  next
    assume "\<exists>k<length xs. py_max_from key ?b' xs = xs ! k \<and> key ?b' < key (xs ! k)
        \<and> (\<forall>y\<in>set xs. key y \<le> key (xs ! k)) \<and> (\<forall>j<k. key (xs ! j) < key (xs ! k))"
    then obtain k where k: "k < length xs" "py_max_from key ?b' xs = xs ! k" "key ?b' < key (xs ! k)"
      "\<forall>y\<in>set xs. key y \<le> key (xs ! k)" "\<forall>j<k. key (xs ! j) < key (xs ! k)" by blast
    have lt: "key x < key (xs ! k)" "key b < key (xs ! k)"
      using k(3) by (auto split: if_splits)
    have "\<forall>j<Suc k. key ((x # xs) ! j) < key (xs ! k)"
      using k(5) lt by (auto simp: less_Suc_eq_0_disj)
    with k lt have "Suc k < length (x # xs) \<and> py_max_from key b (x # xs) = (x # xs) ! Suc k \<and> key b < key ((x # xs) ! Suc k)
        \<and> (\<forall>y\<in>set (x # xs). key y \<le> key ((x # xs) ! Suc k)) \<and> (\<forall>j<Suc k. key ((x # xs) ! j) < key ((x # xs) ! Suc k))"
      by auto
    then show ?thesis by blast
  qed
qed

text \<open>
  On any dict: \<open>largest_region\<close> fails on the empty one, and on a non-empty one it
  returns the name at the first position of the iteration order whose length is maximal.
\<close>

lemma largest_region_first_in_dict:
  "largest_region [] = Inl EmptySequence
   \<and> (regs \<noteq> [] \<longrightarrow>
        (\<exists>k<length regs. largest_region regs = Inr (fst (regs ! k))
           \<and> (\<forall>j<length regs. snd (snd (regs ! j)) \<le> snd (snd (regs ! k)))
           \<and> (\<forall>j<k. snd (snd (regs ! j)) < snd (snd (regs ! k)))))"
proof (cases regs)
  case Nil
  then show ?thesis by (simp add: largest_region_def)
next
  case (Cons e es)
  let ?key = "\<lambda>x::region_name \<times> region. snd (snd x)"
  from py_max_from_first [of ?key e es]
  have "\<exists>k<length regs. largest_region regs = Inr (fst (regs ! k))
           \<and> (\<forall>j<length regs. ?key (regs ! j) \<le> ?key (regs ! k))
           \<and> (\<forall>j<k. ?key (regs ! j) < ?key (regs ! k))"
  proof
    assume h: "py_max_from ?key e es = e \<and> (\<forall>x\<in>set es. ?key x \<le> ?key e)"
    have "\<forall>j<length regs. ?key (regs ! j) \<le> ?key (regs ! 0)"
      using h Cons by (auto simp: nth_Cons split: nat.splits)
    with h Cons show ?thesis
      by (intro exI [of _ 0]) (simp add: largest_region_def)
  next
    assume "\<exists>k<length es. py_max_from ?key e es = es ! k \<and> ?key e < ?key (es ! k)
        \<and> (\<forall>x\<in>set es. ?key x \<le> ?key (es ! k)) \<and> (\<forall>j<k. ?key (es ! j) < ?key (es ! k))"
    then obtain k where k: "k < length es" "py_max_from ?key e es = es ! k" "?key e < ?key (es ! k)"
      "\<forall>x\<in>set es. ?key x \<le> ?key (es ! k)" "\<forall>j<k. ?key (es ! j) < ?key (es ! k)" by blast
    have a: "\<forall>j<length regs. ?key (regs ! j) \<le> ?key (es ! k)"
      using k Cons by (auto simp: nth_Cons split: nat.splits)
    have b: "\<forall>j<Suc k. ?key (regs ! j) < ?key (es ! k)"
      using k Cons by (auto simp: nth_Cons split: nat.splits)
    from a b k Cons show ?thesis
      by (intro exI [of _ "Suc k"]) (simp add: largest_region_def)
  qed
  then show ?thesis by (simp add: largest_region_def)
qed

section \<open>damage_region: the guard\<close>

lemma flip_bits_not_exceeded: "fst (flip_bits data off bs) \<noteq> Inl BitCountExceeded"
  by (induction bs arbitrary: data) (auto split: option.splits)

text \<open>
  Claim C4, as stated: \<open>damage_region\<close> raises its bit-count error exactly when the
  bit count is outside \<open>1 \<le> bits \<le> size * 8\<close>. It fails for \<open>bits = 0\<close> on a one-byte
  region, which is below 1 and is accepted.
\<close>

theorem damage_bits_zero_accepted:
  "\<not> (fst (damage_region rng_lowest [0x00] 0 1 0 ''seq'') = Inl BitCountExceeded
       \<longleftrightarrow> \<not> (1 \<le> (0::int) \<and> (0::int) \<le> 1 * 8))"
  by (simp add: damage_region_def rng_lowest_def py_range_def)

text \<open>
  Claim C4, amended: \<open>damage_region\<close> raises its bit-count error exactly when the bit
  count is greater than \<open>size * 8\<close>; the guard has no lower bound.
\<close>

theorem damage_exceeded_iff:
  "fst (damage_region g data off sz bits mode) = Inl BitCountExceeded \<longleftrightarrow> sz * 8 < bits"
  by (simp add: damage_region_def Let_def flip_bits_not_exceeded)

text \<open>
  Claim C5. Whenever \<open>damage_region\<close> fails with its bit-count error, the buffer is what
  it was before the call.
\<close>

theorem damage_failure_keeps_buffer:
  "fst (damage_region g data off sz bits mode) = Inl BitCountExceeded
   \<Longrightarrow> snd (damage_region g data off sz bits mode) = data"
  by (simp add: damage_region_def Let_def flip_bits_not_exceeded split: if_splits)

theorem damage_failure_keeps_buffer_witness:
  "fst (damage_region rng_lowest [0xAB, 0xCD] 0 1 9 ''random'') = Inl BitCountExceeded
   \<and> snd (damage_region rng_lowest [0xAB, 0xCD] 0 1 9 ''random'') = [0xAB, 0xCD]"
  using damage_failure_keeps_buffer [of rng_lowest "[0xAB, 0xCD]" 0 1 9 "''random''"]
  by (simp add: damage_region_def)

section \<open>damage_region: flipping the same bits twice\<close>

lemma length_toggle [simp]: "length (toggle off b data) = length data"
  by (simp add: toggle_def split: option.splits)

lemma length_fold_toggle [simp]: "length (fold (toggle off) bs data) = length data"
  by (induction bs arbitrary: data) auto

lemma py_index_less: "py_index n j = Some k \<Longrightarrow> k < n"
  by (auto simp: py_index_def split: if_splits)

lemma flip_bits_fold:
  "flip_bits data off bs = (Inr (), data') \<longleftrightarrow>
     (\<forall>b\<in>set bs. py_index (length data) (off + b div 8) \<noteq> None) \<and> data' = fold (toggle off) bs data"
proof (induction bs arbitrary: data)
  case Nil
  show ?case by auto
next
  case (Cons b bs)
  show ?case
  proof (cases "py_index (length data) (off + b div 8)")
    case None
    then show ?thesis by auto
  next
    case (Some j)
    then show ?thesis
      using Cons.IH [of "data[j := data ! j XOR push_bit (nat (b mod 8)) 1]"]
      by (simp add: toggle_def)
  qed
qed

lemma toggle_twice: "toggle off b (toggle off b data) = data"
proof (cases "py_index (length data) (off + b div 8)")
  case None
  then show ?thesis by (simp add: toggle_def)
next
  case (Some j)
  then have "j < length data" by (rule py_index_less)
  with Some show ?thesis
    by (simp add: toggle_def xor.assoc)
qed

lemma toggle_update:
  "py_index (length data) (off + b div 8) = Some j \<Longrightarrow>
   toggle off b data = data[j := data ! j XOR push_bit (nat (b mod 8)) 1]"
  by (simp add: toggle_def)

lemma toggle_none:
  "py_index (length data) (off + b div 8) = None \<Longrightarrow> toggle off b data = data"
  by (simp add: toggle_def)

lemma update_xor_commute:
  fixes data :: "byte list"
  assumes "j < length data" and "k < length data"
  shows "(data[k := data ! k XOR y])[j := (data[k := data ! k XOR y]) ! j XOR x]
       = (data[j := data ! j XOR x])[k := (data[j := data ! j XOR x]) ! k XOR y]"
proof (cases "j = k")
  case True
  with assms show ?thesis by (simp add: xor.assoc xor.commute [of x y])
next
  case False
  with assms show ?thesis by (simp add: list_update_swap [of j k])
qed

lemma toggle_commute: "toggle off a (toggle off b data) = toggle off b (toggle off a data)"
proof (cases "py_index (length data) (off + a div 8)")
  case None
  then show ?thesis by (simp add: toggle_none)
next
  case ja: (Some j)
  show ?thesis
  proof (cases "py_index (length data) (off + b div 8)")
    case None
    then show ?thesis by (simp add: toggle_none)
  next
    case kb: (Some k)
    have j: "j < length data" and k: "k < length data"
      using ja kb by (auto dest: py_index_less)
    have l: "toggle off a (toggle off b data)
          = (data[k := data ! k XOR push_bit (nat (b mod 8)) 1])
              [j := (data[k := data ! k XOR push_bit (nat (b mod 8)) 1]) ! j XOR push_bit (nat (a mod 8)) 1]"
      using ja kb by (simp add: toggle_update)
    have r: "toggle off b (toggle off a data)
          = (data[j := data ! j XOR push_bit (nat (a mod 8)) 1])
              [k := (data[j := data ! j XOR push_bit (nat (a mod 8)) 1]) ! k XOR push_bit (nat (b mod 8)) 1]"
      using ja kb by (simp add: toggle_update)
    show ?thesis unfolding l r by (rule update_xor_commute [OF j k])
  qed
qed

lemma fold_toggle_commute:
  "fold (toggle off) bs (toggle off a data) = toggle off a (fold (toggle off) bs data)"
proof (induction bs arbitrary: data)
  case Nil
  show ?case by simp
next
  case (Cons b bs)
  have "fold (toggle off) (b # bs) (toggle off a data) = fold (toggle off) bs (toggle off a (toggle off b data))"
    by (simp add: toggle_commute [of off b a])
  also have "\<dots> = toggle off a (fold (toggle off) (b # bs) data)"
    by (simp add: Cons.IH)
  finally show ?case .
qed

lemma fold_toggle_twice: "fold (toggle off) bs (fold (toggle off) bs data) = data"
proof (induction bs arbitrary: data)
  case Nil
  show ?case by simp
next
  case (Cons b bs)
  have "fold (toggle off) (b # bs) (fold (toggle off) (b # bs) data)
        = fold (toggle off) bs (toggle off b (toggle off b (fold (toggle off) bs data)))"
    by (simp add: fold_toggle_commute)
  also have "\<dots> = data" by (simp add: toggle_twice Cons.IH)
  finally show ?case .
qed

text \<open>
  Claim C8. Running the flip loop of \<open>damage_region\<close> over a collection of bit indices
  and then, on the buffer it returns, over the same indices again gives back the original
  buffer, byte for byte (for any list of indices, so also for any set of them).
\<close>

theorem flip_bits_twice_restores:
  "flip_bits data off idxs = (Inr (), data') \<Longrightarrow> flip_bits data' off idxs = (Inr (), data)"
  by (simp add: flip_bits_fold fold_toggle_twice)

theorem flip_bits_twice_restores_witness:
  "flip_bits [0x12, 0x34, 0x56] 1 [0, 9, 3] = (Inr (), [0x12, 0x3D, 0x54])
   \<and> flip_bits [0x12, 0x3D, 0x54] 1 [0, 9, 3] = (Inr (), [0x12, 0x34, 0x56])"
  using flip_bits_twice_restores [of "[0x12, 0x34, 0x56]" 1 "[0, 9, 3]" "[0x12, 0x3D, 0x54]"]
  by (simp add: py_index_def)

section \<open>RegionScanner: the dict and the walked segments\<close>

lemma map_of_dict_set: "map_of (dict_set k v es) = (map_of es)(k \<mapsto> v)"
  by (induction es) (auto simp: fun_eq_iff)

lemma keys_dict_set:
  "map fst (dict_set k v es) = (if k \<in> fst ` set es then map fst es else map fst es @ [k])"
  by (induction es) auto

lemma distinct_dict_set: "distinct (map fst es) \<Longrightarrow> distinct (map fst (dict_set k v es))"
  by (simp add: keys_dict_set)

lemma in_dict_set:
  "distinct (map fst es) \<Longrightarrow> e \<in> set (dict_set k v es) \<Longrightarrow> e = (k, v) \<or> (e \<in> set es \<and> fst e \<noteq> k)"
proof (induction es)
  case Nil
  then show ?case by simp
next
  case (Cons x es)
  then show ?case by (auto split: if_splits simp: rev_image_eqI)
qed

lemma jpg_loop_segments: "jpg_loop d i regs = foldl record_segment regs (segments d i)"
proof (induction d i regs rule: jpg_loop.induct)
  case (1 d i regs)
  show ?case
    using "1.IH"
    by (subst jpg_loop.simps, subst segments.simps) simp
qed

lemma distinct_record_segment:
  "distinct (map fst regs) \<Longrightarrow> distinct (map fst (record_segment regs s))"
  by (cases s) (simp add: record_segment_def distinct_dict_set split: option.splits)

lemma distinct_foldl_record:
  "distinct (map fst regs) \<Longrightarrow> distinct (map fst (foldl record_segment regs ss))"
  by (induction ss arbitrary: regs) (simp_all add: distinct_record_segment)

lemma distinct_jpg_segments: "distinct (map fst (jpg_segments d))"
  by (simp add: jpg_segments_def jpg_loop_segments distinct_foldl_record)

lemma name_of_inj: "name_of m = Some n \<Longrightarrow> name_of m' = Some n \<Longrightarrow> m' = m"
  by (auto simp: name_of.simps split: if_splits)

lemma map_of_record_segment:
  "map_of (record_segment regs (c, m, l)) n =
     (if name_of m = Some n then Some (int c + 2, int l - 2) else map_of regs n)"
  by (auto simp: record_segment_def map_of_dict_set split: option.splits)

lemma map_of_foldl_record:
  "map_of (foldl record_segment regs ss) n =
     (case filter (\<lambda>s. name_of (fst (snd s)) = Some n) ss of
        [] \<Rightarrow> map_of regs n
      | x # xs \<Rightarrow> Some (int (fst (last (x # xs))) + 2, int (snd (snd (last (x # xs)))) - 2))"
proof (induction ss arbitrary: regs rule: rev_induct)
  case Nil
  show ?case by simp
next
  case (snoc s ss)
  obtain c m l where s: "s = (c, m, l)" by (cases s) auto
  show ?case
    using snoc.IH [of regs]
    by (auto simp: s map_of_record_segment split: list.splits)
qed

lemma no_entry_for_key: "k \<notin> fst ` set es \<Longrightarrow> filter (\<lambda>e. fst e = k) es = []"
  by (induction es) auto

lemma one_entry_per_key:
  "distinct (map fst es) \<Longrightarrow> k \<in> fst ` set es \<Longrightarrow> length (filter (\<lambda>e. fst e = k) es) = 1"
proof (induction es)
  case Nil
  then show ?case by simp
next
  case (Cons e es)
  show ?case
  proof (cases "fst e = k")
    case True
    with Cons.prems have "fst e \<notin> fst ` set es" by simp
    with True have "filter (\<lambda>e. fst e = k) es = []"
      by (intro no_entry_for_key) simp
    with True show ?thesis by simp
  next
    case False
    with Cons show ?thesis by auto
  qed
qed

text \<open>
  Claim C10. When a recognized tag code \<open>m\<close> (with name \<open>n\<close>) occurs in one or more of
  the segments the scanner walks, the mapping has exactly one entry for \<open>n\<close>, and its
  span is the one recorded for the last of those segments in stream order.
\<close>

theorem repeated_tag_last_wins:
  assumes "RegionScanner d = Inr regs" and "name_of m = Some n"
    and "filter (\<lambda>s. fst (snd s) = m) (segments d 2) \<noteq> []"
  shows "length (filter (\<lambda>e. fst e = n) regs) = 1
       \<and> map_of regs n =
           Some (int (fst (last (filter (\<lambda>s. fst (snd s) = m) (segments d 2)))) + 2,
                 int (snd (snd (last (filter (\<lambda>s. fst (snd s) = m) (segments d 2))))) - 2)"
proof -
  let ?M = "filter (\<lambda>s. fst (snd s) = m) (segments d 2)"
  have regs: "regs = foldl record_segment [] (segments d 2)"
    using assms(1) by (simp add: RegionScanner_def jpg_segments_def jpg_loop_segments split: if_splits)
  have same: "filter (\<lambda>s. name_of (fst (snd s)) = Some n) (segments d 2) = ?M"
    by (rule filter_cong) (auto simp: assms(2) dest: name_of_inj [OF assms(2)])
  have val: "map_of regs n = Some (int (fst (last ?M)) + 2, int (snd (snd (last ?M))) - 2)"
    using assms(3) by (simp add: regs map_of_foldl_record same split: list.splits)
  then have "n \<in> fst ` set regs"
    by (metis map_of_eq_None_iff option.distinct(1))
  moreover have "distinct (map fst regs)"
    by (simp add: regs distinct_foldl_record)
  ultimately have "length (filter (\<lambda>e. fst e = n) regs) = 1"
    by (simp add: one_entry_per_key)
  with val show ?thesis by simp
qed

theorem repeated_tag_last_wins_witness:
  "RegionScanner [0xFF, 0xD8, 0xFF, 0xDB, 0x00, 0x04, 0xAA, 0xBB, 0xFF, 0xC4, 0x00, 0x02,
                  0xFF, 0xDB, 0x00, 0x03, 0xCC, 0xFF, 0xD9]
     = Inr [(DQT, (14, 1)), (DHT, (10, 0))]
   \<and> name_of 0xDB = Some DQT
   \<and> filter (\<lambda>s. fst (snd s) = 0xDB)
        (segments [0xFF, 0xD8, 0xFF, 0xDB, 0x00, 0x04, 0xAA, 0xBB, 0xFF, 0xC4, 0x00, 0x02,
                   0xFF, 0xDB, 0x00, 0x03, 0xCC, 0xFF, 0xD9] 2) = [(2, 0xDB, 4), (12, 0xDB, 3)]
   \<and> length (filter (\<lambda>e. fst e = DQT) [(DQT, (14, 1)), (DHT, (10, 0::int))]) = 1
   \<and> map_of [(DQT, (14, 1)), (DHT, (10, 0::int))] DQT = Some (14::int, 1)"
  using repeated_tag_last_wins [of "[0xFF, 0xD8, 0xFF, 0xDB, 0x00, 0x04, 0xAA, 0xBB, 0xFF, 0xC4, 0x00, 0x02,
                  0xFF, 0xDB, 0x00, 0x03, 0xCC, 0xFF, 0xD9]" "[(DQT, (14, 1)), (DHT, (10, 0))]" "0xDB" DQT]
  by (simp add: RegionScanner_def jpg_segments_def jpg_loop.simps segments.simps seg_end_def seg_len_def
      record_segment_def name_of.simps)

section \<open>RegionScanner: the length of a Region\<close>

lemma entry_from_segment:
  assumes "RegionScanner d = Inr regs" and "(n, r) \<in> set regs"
  shows "\<exists>s\<in>set (segments d 2). name_of (fst (snd s)) = Some n
            \<and> r = (int (fst s) + 2, int (snd (snd s)) - 2)"
proof -
  let ?M = "filter (\<lambda>s. name_of (fst (snd s)) = Some n) (segments d 2)"
  have regs: "regs = foldl record_segment [] (segments d 2)"
    using assms(1) by (simp add: RegionScanner_def jpg_segments_def jpg_loop_segments split: if_splits)
  have "distinct (map fst regs)"
    by (simp add: regs distinct_foldl_record)
  with assms(2) have v: "map_of regs n = Some r" by simp
  have ne: "?M \<noteq> []"
    using v by (auto simp: regs map_of_foldl_record split: list.splits)
  then have "last ?M \<in> set ?M" by (rule last_in_set)
  then have "last ?M \<in> set (segments d 2)" and "name_of (fst (snd (last ?M))) = Some n"
    by auto
  moreover have "r = (int (fst (last ?M)) + 2, int (snd (snd (last ?M))) - 2)"
    using v ne by (auto simp: regs map_of_foldl_record split: list.splits)
  ultimately show ?thesis by blast
qed

text \<open>
  Claim C7, as stated: every recorded Region has a strictly positive length, also for a
  length field of 2 or less. On FF D8 | FF DB 00 02 (a DQT segment with length field 2)
  the scanner records DQT with length 0.
\<close>

theorem zero_length_region_recorded:
  "RegionScanner [0xFF, 0xD8, 0xFF, 0xDB, 0x00, 0x02] = Inr [(DQT, (4, 0))]
   \<and> \<not> 0 < snd (snd (DQT, (4::int, 0::int)))"
  by (simp add: RegionScanner_def jpg_segments_def jpg_loop.simps seg_end_def seg_len_def
      record_segment_def name_of.simps)

text \<open>
  Claim C7, amended: every recorded Region comes from a walked segment with that name's
  tag code, and its length is that segment's length field minus 2; so it is strictly
  positive exactly when the length field is greater than 2.
\<close>

theorem region_length_from_segment:
  assumes "RegionScanner d = Inr regs" and "(n, (off, len)) \<in> set regs"
  shows "\<exists>s\<in>set (segments d 2). name_of (fst (snd s)) = Some n
            \<and> len = int (snd (snd s)) - 2 \<and> (0 < len \<longleftrightarrow> 2 < snd (snd s))"
  using entry_from_segment [OF assms] by auto

theorem region_length_from_segment_witness:
  "RegionScanner [0xFF, 0xD8, 0xFF, 0xDB, 0x00, 0x04, 0xAA, 0xBB] = Inr [(DQT, (4, 2))]
   \<and> (DQT, (4::int, 2::int)) \<in> set [(DQT, (4, 2))]
   \<and> segments [0xFF, 0xD8, 0xFF, 0xDB, 0x00, 0x04, 0xAA, 0xBB] 2 = [(2, 0xDB, 4)]
   \<and> name_of 0xDB = Some DQT \<and> (2::int) = int 4 - 2 \<and> (0::int) < 2 \<and> (2::nat) < 4"
  using region_length_from_segment [of "[0xFF, 0xD8, 0xFF, 0xDB, 0x00, 0x04, 0xAA, 0xBB]" "[(DQT, (4, 2))]" DQT 4 2]
  by (simp add: RegionScanner_def jpg_segments_def jpg_loop.simps segments.simps seg_end_def seg_len_def
      record_segment_def name_of.simps)

section \<open>RegionScanner: bounds and disjointness of the Regions\<close>

lemma segments_bounds:
  "s \<in> set (segments d i) \<Longrightarrow> i \<le> fst s \<and> fst s + 2 + snd (snd s) \<le> length d"
proof (induction d i rule: segments.induct)
  case (1 d i)
  show ?case
    using "1.prems" [unfolded segments.simps [of d i]] "1.IH"
    by (auto split: if_splits simp: seg_end_def)
qed

lemma segments_sorted:
  "sorted_wrt (\<lambda>s t. fst s + 2 + snd (snd s) \<le> fst t) (segments d i)"
proof (induction d i rule: segments.induct)
  case (1 d i)
  show ?case
    using "1.IH" segments_bounds [of _ d "seg_end d i"]
    by (subst segments.simps) (auto simp: seg_end_def)
qed

lemma sorted_wrt_either:
  "sorted_wrt P xs \<Longrightarrow> a \<in> set xs \<Longrightarrow> b \<in> set xs \<Longrightarrow> a \<noteq> b \<Longrightarrow> P a b \<or> P b a"
  by (induction xs) auto

text \<open>
  Claim C2. For a byte sequence the scanner accepts, every Region of the mapping has
  \<open>0 \<le> offset\<close> and \<open>offset + length \<le> len(buffer)\<close>, and the byte spans of two
  different entries of the mapping have no offset in common.
\<close>

theorem regions_in_bounds_disjoint:
  assumes "RegionScanner d = Inr regs"
  shows "(\<forall>e\<in>set regs. 0 \<le> fst (snd e) \<and> fst (snd e) + snd (snd e) \<le> int (length d))
       \<and> (\<forall>e1\<in>set regs. \<forall>e2\<in>set regs. e1 \<noteq> e2 \<longrightarrow> span (snd e1) \<inter> span (snd e2) = {})"
proof (intro conjI ballI impI)
  fix e assume "e \<in> set regs"
  then have "(fst e, snd e) \<in> set regs" by simp
  from entry_from_segment [OF assms this]
  obtain s where s: "s \<in> set (segments d 2)" "snd e = (int (fst s) + 2, int (snd (snd s)) - 2)"
    by blast
  from segments_bounds [OF s(1)] have "fst s + 2 + snd (snd s) \<le> length d" by simp
  with s(2) show "0 \<le> fst (snd e)" and "fst (snd e) + snd (snd e) \<le> int (length d)"
    by simp_all
next
  fix e1 e2 assume e: "e1 \<in> set regs" "e2 \<in> set regs" "e1 \<noteq> e2"
  have regs: "regs = foldl record_segment [] (segments d 2)"
    using assms by (simp add: RegionScanner_def jpg_segments_def jpg_loop_segments split: if_splits)
  have dist: "distinct (map fst regs)"
    by (simp add: regs distinct_foldl_record)
  have names: "fst e1 \<noteq> fst e2"
    using dist e by (metis eq_key_imp_eq_value prod.collapse)
  from e have "(fst e1, snd e1) \<in> set regs" and "(fst e2, snd e2) \<in> set regs" by simp_all
  from entry_from_segment [OF assms this(1)] entry_from_segment [OF assms this(2)]
  obtain s1 s2 where
    s1: "s1 \<in> set (segments d 2)" "name_of (fst (snd s1)) = Some (fst e1)"
        "snd e1 = (int (fst s1) + 2, int (snd (snd s1)) - 2)" and
    s2: "s2 \<in> set (segments d 2)" "name_of (fst (snd s2)) = Some (fst e2)"
        "snd e2 = (int (fst s2) + 2, int (snd (snd s2)) - 2)"
    by blast
  from names s1(2) s2(2) have "s1 \<noteq> s2" by auto
  from sorted_wrt_either [OF segments_sorted s1(1) s2(1) this]
  have "fst s1 + 2 + snd (snd s1) \<le> fst s2 \<or> fst s2 + 2 + snd (snd s2) \<le> fst s1" .
  then show "span (snd e1) \<inter> span (snd e2) = {}"
    by (auto simp: span_def s1(3) s2(3))
qed

theorem regions_in_bounds_disjoint_witness:
  "RegionScanner [0xFF, 0xD8, 0xFF, 0xDB, 0x00, 0x04, 0xAA, 0xBB, 0xFF, 0xDA, 0x00, 0x03, 0xCC, 0xFF, 0xD9]
     = Inr [(DQT, (4, 2)), (SOS, (10, 1))]
   \<and> (0::int) \<le> 4 \<and> (4::int) + 2 \<le> 15 \<and> (0::int) \<le> 10 \<and> (10::int) + 1 \<le> 15
   \<and> span (4, 2) \<inter> span (10, 1) = {}"
  using regions_in_bounds_disjoint [of
      "[0xFF, 0xD8, 0xFF, 0xDB, 0x00, 0x04, 0xAA, 0xBB, 0xFF, 0xDA, 0x00, 0x03, 0xCC, 0xFF, 0xD9]"
      "[(DQT, (4, 2)), (SOS, (10, 1))]"]
  by (simp add: RegionScanner_def jpg_segments_def jpg_loop.simps seg_end_def seg_len_def
      record_segment_def name_of.simps)

section \<open>damage_region: which bits change\<close>

lemma bit_xor_mask:
  fixes w :: byte
  assumes "n < 8" and "k < 8"
  shows "bit (w XOR push_bit k 1) n = (bit w n \<noteq> (n = k))"
  using assms by (auto simp: bit_xor_iff bit_exp_iff)

lemma toggle_nonneg:
  assumes "0 \<le> off" and "0 \<le> b" and "off + b div 8 < int (length data)"
  shows "toggle off b data =
           data[nat (off + b div 8) := data ! nat (off + b div 8) XOR push_bit (nat (b mod 8)) 1]"
proof -
  have "0 \<le> off + b div 8" using assms(1,2) by (simp add: pos_imp_zdiv_nonneg_iff)
  with assms(3) have "py_index (length data) (off + b div 8) = Some (nat (off + b div 8))"
    by (simp add: py_index_def)
  then show ?thesis by (simp add: toggle_def)
qed

lemma bit_at_toggle:
  assumes "0 \<le> off" and "0 \<le> b" and "off + b div 8 < int (length data)"
    and "p < 8 * length data"
  shows "bit_at (toggle off b data) p = (bit_at data p \<noteq> (int p - 8 * off = b))"
proof -
  let ?j = "nat (off + b div 8)" and ?k = "nat (b mod 8)"
  have j: "?j < length data" using assms by simp
  have k: "?k < 8" by simp
  have p8: "p div 8 < length data" "p mod 8 < 8" using assms(4) by auto
  have nn: "0 \<le> off + b div 8" using assms(1,2) by (simp add: pos_imp_zdiv_nonneg_iff)
  have pos: "(int p - 8 * off = b) \<longleftrightarrow> (p div 8 = ?j \<and> p mod 8 = ?k)"
  proof
    assume h: "int p - 8 * off = b"
    then have "int p = 8 * off + b" by simp
    then have "int (p div 8) = off + b div 8" and "int (p mod 8) = b mod 8"
      by (simp_all add: zdiv_int zmod_int)
    then show "p div 8 = ?j \<and> p mod 8 = ?k" by linarith
  next
    assume h: "p div 8 = ?j \<and> p mod 8 = ?k"
    have "int p = 8 * int (p div 8) + int (p mod 8)" by presburger
    also have "\<dots> = 8 * (off + b div 8) + b mod 8"
      using h nn by simp
    also have "\<dots> = 8 * off + b" by simp
    finally show "int p - 8 * off = b" by simp
  qed
  show ?thesis
  proof (cases "p div 8 = ?j")
    case True
    then have "bit_at (toggle off b data) p = bit (data ! ?j XOR push_bit ?k 1) (p mod 8)"
      using j by (simp add: bit_at_def toggle_nonneg [OF assms(1-3)])
    also have "\<dots> = (bit (data ! ?j) (p mod 8) \<noteq> (p mod 8 = ?k))"
      by (rule bit_xor_mask [OF p8(2) k])
    finally show ?thesis using True by (simp add: pos bit_at_def)
  next
    case False
    then have "bit_at (toggle off b data) p = bit_at data p"
      by (simp add: bit_at_def toggle_nonneg [OF assms(1-3)])
    with False show ?thesis by (simp add: pos)
  qed
qed

lemma bit_at_fold_toggle:
  assumes "0 \<le> off" and "distinct bs"
    and "\<forall>b\<in>set bs. 0 \<le> b \<and> off + b div 8 < int (length data)"
    and "p < 8 * length data"
  shows "bit_at (fold (toggle off) bs data) p = (bit_at data p \<noteq> (int p - 8 * off \<in> set bs))"
  using assms(2,3,4)
proof (induction bs arbitrary: data)
  case Nil
  show ?case by simp
next
  case (Cons b bs)
  have b: "0 \<le> b" "off + b div 8 < int (length data)" using Cons.prems(2) by simp_all
  have "bit_at (fold (toggle off) bs (toggle off b data)) p
        = (bit_at (toggle off b data) p \<noteq> (int p - 8 * off \<in> set bs))"
    using Cons.prems by (intro Cons.IH) simp_all
  also have "\<dots> = ((bit_at data p \<noteq> (int p - 8 * off = b)) \<noteq> (int p - 8 * off \<in> set bs))"
    using bit_at_toggle [OF assms(1) b Cons.prems(3)] by simp
  also have "\<dots> = (bit_at data p \<noteq> (int p - 8 * off \<in> set (b # bs)))"
    using Cons.prems(1) by auto
  finally show ?case by simp
qed

lemma fold_toggle_outside:
  assumes "\<forall>b\<in>set bs. py_index (length data) (off + b div 8) \<noteq> Some k"
  shows "fold (toggle off) bs data ! k = data ! k"
  using assms
proof (induction bs arbitrary: data)
  case Nil
  show ?case by simp
next
  case (Cons b bs)
  have "fold (toggle off) bs (toggle off b data) ! k = toggle off b data ! k"
    using Cons.prems by (intro Cons.IH) simp
  also have "\<dots> = data ! k"
    using Cons.prems by (auto simp: toggle_def split: option.splits)
  finally show ?case by simp
qed

lemma flip_bits_returns:
  assumes "0 \<le> off" and "\<forall>b\<in>set bs. 0 \<le> b \<and> b < sz * 8"
    and "off + sz \<le> int (length data)"
  shows "fst (flip_bits data off bs) = Inr ()"
proof -
  have "py_index (length data) (off + b div 8) \<noteq> None" if "b \<in> set bs" for b
  proof -
    from that assms(2) have b: "0 \<le> b" "b < sz * 8" by auto
    then have "0 \<le> b div 8" "b div 8 < sz" by (simp_all add: pos_imp_zdiv_nonneg_iff)
    with assms(1,3) show ?thesis by (simp add: py_index_def)
  qed
  then have "flip_bits data off bs = (Inr (), fold (toggle off) bs data)"
    by (simp add: flip_bits_fold)
  then show ?thesis by simp
qed

lemma flip_bits_effect:
  assumes "0 \<le> off" and "distinct bs" and "\<forall>b\<in>set bs. 0 \<le> b \<and> b < sz * 8"
    and "flip_bits data off bs = (Inr (), data')"
  shows "length data' = length data"
    and "length (diff_positions data data') = length bs"
    and "\<forall>p\<in>set (diff_positions data data'). 8 * off \<le> int p \<and> int p < 8 * (off + sz)"
    and "\<forall>k<length data. \<not> (off \<le> int k \<and> int k < off + sz) \<longrightarrow> data' ! k = data ! k"
proof -
  from assms(4) have ok: "\<forall>b\<in>set bs. py_index (length data) (off + b div 8) \<noteq> None"
    and data': "data' = fold (toggle off) bs data"
    by (simp_all add: flip_bits_fold)
  have nn: "0 \<le> off + b div 8" if "b \<in> set bs" for b
    using that assms(1,3) by (simp add: pos_imp_zdiv_nonneg_iff)
  have idx: "py_index (length data) (off + b div 8) = Some (nat (off + b div 8))
             \<and> off + b div 8 < int (length data)" if "b \<in> set bs" for b
    using ok that nn [OF that] by (auto simp: py_index_def split: if_splits)
  have valid: "\<forall>b\<in>set bs. 0 \<le> b \<and> off + b div 8 < int (length data)"
    using assms(3) idx by blast
  show len: "length data' = length data" by (simp add: data')
  have flipped: "(bit_at data p \<noteq> bit_at data' p) = (int p - 8 * off \<in> set bs)"
    if "p < 8 * length data" for p
    using bit_at_fold_toggle [OF assms(1,2) valid that] by (auto simp: data')
  have D: "diff_positions data data' = filter (\<lambda>p. int p - 8 * off \<in> set bs) [0..<8 * length data]"
    unfolding diff_positions_def using flipped by (intro filter_cong) auto
  have setD: "set (diff_positions data data') = (\<lambda>b. nat (8 * off + b)) ` set bs"
  proof (intro equalityI subsetI)
    fix p assume "p \<in> set (diff_positions data data')"
    then have "int p - 8 * off \<in> set bs" by (simp add: D)
    moreover have "p = nat (8 * off + (int p - 8 * off))" by simp
    ultimately show "p \<in> (\<lambda>b. nat (8 * off + b)) ` set bs" by (rule rev_image_eqI)
  next
    fix p assume "p \<in> (\<lambda>b. nat (8 * off + b)) ` set bs"
    then obtain b where b: "b \<in> set bs" "p = nat (8 * off + b)" by blast
    from valid b(1) have v: "0 \<le> b" "off + b div 8 < int (length data)" by auto
    have "b < 8 * (b div 8) + 8" by presburger
    with v(2) have "8 * off + b < 8 * int (length data)" by linarith
    with b v(1) assms(1) have "p < 8 * length data" and "int p - 8 * off = b" by auto
    with b(1) show "p \<in> set (diff_positions data data')" by (simp add: D)
  qed
  have inj: "inj_on (\<lambda>b. nat (8 * off + b)) (set bs)"
    using assms(1,3) by (intro inj_onI) (auto simp: nat_eq_iff)
  have "distinct (diff_positions data data')" by (simp add: diff_positions_def)
  then have "length (diff_positions data data') = card (set (diff_positions data data'))"
    by (simp add: distinct_card)
  also have "\<dots> = card (set bs)" by (simp add: setD card_image [OF inj])
  also have "\<dots> = length bs" using assms(2) by (simp add: distinct_card)
  finally show "length (diff_positions data data') = length bs" .
  show "\<forall>p\<in>set (diff_positions data data'). 8 * off \<le> int p \<and> int p < 8 * (off + sz)"
  proof
    fix p assume "p \<in> set (diff_positions data data')"
    then obtain b where b: "b \<in> set bs" "p = nat (8 * off + b)" by (auto simp: setD)
    with assms(1,3) show "8 * off \<le> int p \<and> int p < 8 * (off + sz)" by auto
  qed
  show "\<forall>k<length data. \<not> (off \<le> int k \<and> int k < off + sz) \<longrightarrow> data' ! k = data ! k"
  proof (intro allI impI)
    fix k assume "k < length data" and out: "\<not> (off \<le> int k \<and> int k < off + sz)"
    have "py_index (length data) (off + b div 8) \<noteq> Some k" if "b \<in> set bs" for b
    proof
      assume "py_index (length data) (off + b div 8) = Some k"
      with idx [OF that] have k: "int k = off + b div 8" using nn [OF that] by simp
      from that assms(3) have b: "0 \<le> b" "b < sz * 8" by auto
      then have "0 \<le> b div 8" "b div 8 < sz" by (simp_all add: pos_imp_zdiv_nonneg_iff)
      with k out show False by simp
    qed
    then show "data' ! k = data ! k"
      unfolding data' by (intro fold_toggle_outside) blast
  qed
qed

lemma py_range_ok:
  assumes "0 \<le> start" and "start \<le> n - k" and "0 \<le> k"
  shows "distinct (py_range start (start + k))"
    and "\<forall>b\<in>set (py_range start (start + k)). 0 \<le> b \<and> b < n"
    and "int (length (py_range start (start + k))) = k"
  using assms by (auto simp: py_range_def)

text \<open>
  Claim C3. Take a region span with \<open>0 \<le> offset\<close> (as a Region has it), a bit count with
  \<open>1 \<le> bits \<le> size * 8\<close>, any mode, and a generator whose draw keeps the contract of
  \<open>random.sample\<close> and \<open>random.randint\<close>. When the span lies inside the buffer,
  \<open>damage_region\<close> returns; and whenever it returns, the buffer has its length, differs
  from the buffer before the call in exactly \<open>bits\<close> bit positions, each of them inside
  the bits of the bytes \<open>offset .. offset + size - 1\<close>, and every byte outside that span
  is what it was.
\<close>

theorem damage_flips_exactly_bits:
  assumes "1 \<le> bits" and "bits \<le> sz * 8" and "0 \<le> off"
    and "sample_ok (sz * 8) bits (rng_sample g (sz * 8) bits)"
    and "randint_ok 0 (sz * 8 - bits) (rng_randint g 0 (sz * 8 - bits))"
  shows "(off + sz \<le> int (length data) \<longrightarrow> fst (damage_region g data off sz bits mode) = Inr ())
       \<and> (fst (damage_region g data off sz bits mode) = Inr () \<longrightarrow>
            length (snd (damage_region g data off sz bits mode)) = length data
          \<and> int (length (diff_positions data (snd (damage_region g data off sz bits mode)))) = bits
          \<and> (\<forall>p\<in>set (diff_positions data (snd (damage_region g data off sz bits mode))).
                8 * off \<le> int p \<and> int p < 8 * (off + sz))
          \<and> (\<forall>k<length data. \<not> (off \<le> int k \<and> int k < off + sz) \<longrightarrow>
                snd (damage_region g data off sz bits mode) ! k = data ! k))"
proof -
  define bs where "bs = (if mode = ''random'' then rng_sample g (sz * 8) bits
     else py_range (rng_randint g 0 (sz * 8 - bits)) (rng_randint g 0 (sz * 8 - bits) + bits))"
  have run: "damage_region g data off sz bits mode = flip_bits data off bs"
    using assms(1,2) by (simp add: damage_region_def bs_def Let_def)
  have bs: "distinct bs" "\<forall>b\<in>set bs. 0 \<le> b \<and> b < sz * 8" "int (length bs) = bits"
  proof -
    show "distinct bs"
      using assms(1,4,5) py_range_ok(1) [of "rng_randint g 0 (sz * 8 - bits)" "sz * 8" bits]
      by (auto simp: bs_def sample_ok_def randint_ok_def)
    show "\<forall>b\<in>set bs. 0 \<le> b \<and> b < sz * 8"
      using assms(1,4,5) py_range_ok(2) [of "rng_randint g 0 (sz * 8 - bits)" "sz * 8" bits]
      by (auto simp: bs_def sample_ok_def randint_ok_def list_all_iff)
    show "int (length bs) = bits"
      using assms(1,4,5) py_range_ok(3) [of "rng_randint g 0 (sz * 8 - bits)" "sz * 8" bits]
      by (auto simp: bs_def sample_ok_def randint_ok_def)
  qed
  have ret: "fst (damage_region g data off sz bits mode) = Inr ()"
    if "off + sz \<le> int (length data)"
    unfolding run using assms(3) bs(2) that by (rule flip_bits_returns)
  have eff: "length (snd (flip_bits data off bs)) = length data
          \<and> int (length (diff_positions data (snd (flip_bits data off bs)))) = bits
          \<and> (\<forall>p\<in>set (diff_positions data (snd (flip_bits data off bs))).
                8 * off \<le> int p \<and> int p < 8 * (off + sz))
          \<and> (\<forall>k<length data. \<not> (off \<le> int k \<and> int k < off + sz) \<longrightarrow>
                snd (flip_bits data off bs) ! k = data ! k)"
    if "fst (flip_bits data off bs) = Inr ()"
  proof -
    from that have r: "flip_bits data off bs = (Inr (), snd (flip_bits data off bs))"
      by (simp add: prod_eq_iff)
    from flip_bits_effect [OF assms(3) bs(1,2) r] bs(3) show ?thesis by simp
  qed
  from ret eff show ?thesis unfolding run by blast
qed

theorem damage_flips_exactly_bits_witness:
  "(1::int) \<le> 3 \<and> (3::int) \<le> 2 * 8 \<and> (0::int) \<le> 1
   \<and> sample_ok (2 * 8) 3 (rng_sample rng_lowest (2 * 8) 3)
   \<and> randint_ok 0 (2 * 8 - 3) (rng_randint rng_lowest 0 (2 * 8 - 3))
   \<and> damage_region rng_lowest [0x10, 0x20, 0x30, 0x40] 1 2 3 ''random''
       = (Inr (), [0x10, 0x27, 0x30, 0x40])
   \<and> diff_positions [0x10, 0x20, 0x30, 0x40] [0x10, 0x27, 0x30, 0x40] = [8, 9, 10]
   \<and> int (length (diff_positions [0x10, 0x20, 0x30, 0x40]
        (snd (damage_region rng_lowest [0x10, 0x20, 0x30, 0x40] 1 2 3 ''random'')))) = 3"
  using damage_flips_exactly_bits [of 3 2 1 rng_lowest "[0x10, 0x20, 0x30, 0x40]" "''random''"]
  by (simp add: sample_ok_def randint_ok_def rng_lowest_def damage_region_def py_index_def
      diff_positions_def bit_at_def upto.simps upt_conv_Cons)

section \<open>largest_region on a scanned stream\<close>

lemma set_first_seen [simp]: "set (first_seen xs) = set xs"
  by (induction xs) auto

lemma first_seen_snoc:
  "first_seen (xs @ [n]) = (if n \<in> set xs then first_seen xs else first_seen xs @ [n])"
  by (induction xs) auto

lemma keys_record_segment:
  "map fst (record_segment regs s) =
     (case name_of (fst (snd s)) of
        None \<Rightarrow> map fst regs
      | Some n \<Rightarrow> if n \<in> set (map fst regs) then map fst regs else map fst regs @ [n])"
  by (cases s) (simp add: record_segment_def keys_dict_set split: option.splits)

lemma keys_foldl_record:
  "map fst (foldl record_segment [] ss)
     = first_seen (List.map_filter (\<lambda>s. name_of (fst (snd s))) ss)"
proof (induction ss rule: rev_induct)
  case Nil
  show ?case by (simp add: map_filter_simps)
next
  case (snoc s ss)
  show ?case
  proof (cases "name_of (fst (snd s))")
    case None
    then show ?thesis
      using snoc.IH by (simp add: keys_record_segment map_filter_def)
  next
    case (Some n)
    have names: "List.map_filter (\<lambda>s. name_of (fst (snd s))) (ss @ [s])
                 = List.map_filter (\<lambda>s. name_of (fst (snd s))) ss @ [n]"
      using Some by (simp add: map_filter_def)
    show ?thesis
      unfolding names first_seen_snoc
      using Some snoc.IH by (simp add: keys_record_segment)
  qed
qed

text \<open>
  Claim C6, as stated: among the Regions of maximal length \<open>largest_region\<close> returns the
  one recorded earliest in scan order. On the stream
  FF D8 | FF DB 00 03 AA | FF DA 00 04 BB CC | FF DB 00 04 DD EE | FF D9
  the walk records DQT at cursor 2, SOS at cursor 7 and DQT again at cursor 13. The mapping
  ends with DQT = (15, 2), recorded at the third segment, and SOS = (9, 2), recorded at the
  second; both have length 2, and \<open>largest_region\<close> returns DQT, the later one.
\<close>

theorem largest_region_not_stream_order:
  "RegionScanner [0xFF, 0xD8, 0xFF, 0xDB, 0x00, 0x03, 0xAA, 0xFF, 0xDA, 0x00, 0x04, 0xBB, 0xCC,
                  0xFF, 0xDB, 0x00, 0x04, 0xDD, 0xEE, 0xFF, 0xD9]
     = Inr [(DQT, (15, 2)), (SOS, (9, 2))]
   \<and> segments [0xFF, 0xD8, 0xFF, 0xDB, 0x00, 0x03, 0xAA, 0xFF, 0xDA, 0x00, 0x04, 0xBB, 0xCC,
               0xFF, 0xDB, 0x00, 0x04, 0xDD, 0xEE, 0xFF, 0xD9] 2
     = [(2, 0xDB, 3), (7, 0xDA, 4), (13, 0xDB, 4)]
   \<and> largest_region [(DQT, (15, 2)), (SOS, (9, 2))] = Inr DQT
   \<and> (7::nat) < 13"
  by (simp add: RegionScanner_def jpg_segments_def jpg_loop.simps segments.simps seg_end_def
      seg_len_def record_segment_def name_of.simps largest_region_def)

text \<open>
  Claim C6, amended: on an empty mapping \<open>largest_region\<close> fails (the \<open>ValueError\<close> of
  \<open>max\<close> on an empty iterable); on a non-empty one it returns a name whose length is at
  least every entry's length, and among the entries of maximal length the one that comes
  first in the mapping's iteration order. For the mapping of a scan that order is the
  order in which the names were first recorded: a repeated tag keeps the place of its
  first segment (while its span is that of its last one).
\<close>

theorem largest_region_first_recorded_name:
  "largest_region [] = Inl EmptySequence
   \<and> (regs \<noteq> [] \<longrightarrow>
        (\<exists>k<length regs. largest_region regs = Inr (fst (regs ! k))
           \<and> (\<forall>j<length regs. snd (snd (regs ! j)) \<le> snd (snd (regs ! k)))
           \<and> (\<forall>j<k. snd (snd (regs ! j)) < snd (snd (regs ! k)))))
   \<and> (RegionScanner d = Inr regs \<longrightarrow> map fst regs = first_seen (recorded_names d))"
proof -
  have "map fst regs = first_seen (recorded_names d)" if "RegionScanner d = Inr regs"
  proof -
    from that have "regs = foldl record_segment [] (segments d 2)"
      by (simp add: RegionScanner_def jpg_segments_def jpg_loop_segments split: if_splits)
    then show ?thesis by (simp add: keys_foldl_record recorded_names_def)
  qed
  with largest_region_first_in_dict [of regs] show ?thesis by blast
qed

theorem largest_region_first_recorded_name_witness:
  "RegionScanner [0xFF, 0xD8, 0xFF, 0xDB, 0x00, 0x03, 0xAA, 0xFF, 0xDA, 0x00, 0x04, 0xBB, 0xCC,
                  0xFF, 0xDB, 0x00, 0x04, 0xDD, 0xEE, 0xFF, 0xD9]
     = Inr [(DQT, (15, 2)), (SOS, (9, 2))]
   \<and> [(DQT, (15::int, 2::int)), (SOS, (9, 2))] \<noteq> []
   \<and> largest_region [(DQT, (15, 2)), (SOS, (9, 2))] = Inr DQT
   \<and> recorded_names [0xFF, 0xD8, 0xFF, 0xDB, 0x00, 0x03, 0xAA, 0xFF, 0xDA, 0x00, 0x04, 0xBB, 0xCC,
                      0xFF, 0xDB, 0x00, 0x04, 0xDD, 0xEE, 0xFF, 0xD9] = [DQT, SOS, DQT]
   \<and> map fst [(DQT, (15::int, 2::int)), (SOS, (9, 2))] = first_seen [DQT, SOS, DQT]"
  using largest_region_first_recorded_name [of "[(DQT, (15, 2)), (SOS, (9, 2))]"
      "[0xFF, 0xD8, 0xFF, 0xDB, 0x00, 0x03, 0xAA, 0xFF, 0xDA, 0x00, 0x04, 0xBB, 0xCC,
        0xFF, 0xDB, 0x00, 0x04, 0xDD, 0xEE, 0xFF, 0xD9]"]
  by (simp add: RegionScanner_def jpg_segments_def jpg_loop.simps segments.simps seg_end_def
      seg_len_def record_segment_def name_of.simps largest_region_def recorded_names_def
      map_filter_def)

end
